theory Spec2Isabelle
  imports Main "HOL-Library.Word"
begin

section \<open>Machine integers of Delegate.h\<close>

text \<open>
  The header mixes \<^verbatim>\<open>size_t\<close> (vector sizes, the \<^verbatim>\<open>index\<close> field, loop counters) with
  \<^verbatim>\<open>int\<close> (the \<^verbatim>\<open>count\<close> argument of \<^verbatim>\<open>Remove\<close>, \<^verbatim>\<open>adjustedCount\<close>, the \<^verbatim>\<open>index\<close> parameter
  of \<^verbatim>\<open>HelperInvoke\<close>, the local \<^verbatim>\<open>index\<close> of the decrement operators).  The model fixes
  the LP64 widths: \<^verbatim>\<open>size_t\<close> is a 64-bit word read unsigned, \<^verbatim>\<open>int\<close> a 32-bit word read
  in two's complement with \<open>sint\<close>.  A conversion keeps the value modulo the width of
  the target type.
\<close>

type_synonym size_t = "64 word"
type_synonym cint = "32 word"

definition int_to_size_t :: "cint \<Rightarrow> size_t" where
  "int_to_size_t c = word_of_int (sint c)"

definition size_t_to_int :: "size_t \<Rightarrow> cint" where
  "size_t_to_int w = word_of_nat (unat w)"

definition vsize :: "'x list \<Rightarrow> size_t" where
  "vsize xs = word_of_nat (length xs)"

section \<open>Data model\<close>

text \<open>
  \<^verbatim>\<open>FunctionParams\<close> is the snapshot: the position of the owning subscriber and the stored
  argument tuple.  In the header both the struct member and the vector of the delegate are
  called \<^verbatim>\<open>parameters\<close>; here the struct member is \<open>params\<close>.  A function pointer is an
  opaque handle of type \<open>'f\<close> compared by identity; what a call of a handle does is
  given by an interpretation passed to the invoking operations.
\<close>

record 'a FunctionParams =
  index :: size_t
  params :: 'a

record ('f, 'a) DelegateBase =
  subscribers :: "'f list"
  parameters :: "'a FunctionParams list"

datatype error = PopBackOnEmpty | EraseOutOfRange | SubscriptOutOfRange

definition empty_delegate :: "('f, 'a) DelegateBase" where
  "empty_delegate = \<lparr>subscribers = [], parameters = []\<rparr>"

section \<open>Operations of DelegateBase\<close>

definition AttachParameters :: "'a \<Rightarrow> ('f, 'a) DelegateBase \<Rightarrow> ('f, 'a) DelegateBase" where
  "AttachParameters tuple d =
     d\<lparr>parameters := parameters d @ [\<lparr>index = vsize (subscribers d) - 1, params = tuple\<rparr>]\<rparr>"

definition push_back :: "'f \<Rightarrow> ('f, 'a) DelegateBase \<Rightarrow> ('f, 'a) DelegateBase" where
  "push_back f d = d\<lparr>subscribers := subscribers d @ [f]\<rparr>"

text \<open>\<^verbatim>\<open>Subscribe(function, params...)\<close>\<close>

definition Subscribe :: "'f \<Rightarrow> 'a \<Rightarrow> ('f, 'a) DelegateBase \<Rightarrow> ('f, 'a) DelegateBase" where
  "Subscribe function tuple d = AttachParameters tuple (push_back function d)"

text \<open>\<^verbatim>\<open>Subscribe(initializer_list<FunctionType>, params...)\<close>\<close>

fun Subscribe_functions :: "'f list \<Rightarrow> 'a \<Rightarrow> ('f, 'a) DelegateBase \<Rightarrow> ('f, 'a) DelegateBase" where
  "Subscribe_functions [] tuple d = d"
| "Subscribe_functions (f # functions) tuple d =
     Subscribe_functions functions tuple (AttachParameters tuple (push_back f d))"

text \<open>\<^verbatim>\<open>Subscribe(function, vector<tuple<Params...>>)\<close>\<close>

fun Subscribe_packs :: "'f \<Rightarrow> 'a list \<Rightarrow> ('f, 'a) DelegateBase \<Rightarrow> ('f, 'a) DelegateBase" where
  "Subscribe_packs function [] d = d"
| "Subscribe_packs function (t # tuples) d =
     Subscribe_packs function tuples (AttachParameters t (push_back function d))"

text \<open>
  \<^verbatim>\<open>DetachParameters(index)\<close>: \<^verbatim>\<open>remove_if\<close> drops every snapshot with that index and counts
  them in \<^verbatim>\<open>erasedCount\<close>; only for index 0 the survivors are re-based, by a \<^verbatim>\<open>size_t\<close>
  subtraction that wraps.  The counter is an \<^verbatim>\<open>int\<close> in the header and a natural number here:
  the two agree below \<open>2 ^ 31\<close> deleted snapshots.
\<close>

definition DetachParameters :: "size_t \<Rightarrow> 'a FunctionParams list \<Rightarrow> 'a FunctionParams list" where
  "DetachParameters idx ps =
     (let erasedCount = length (filter (\<lambda>x. index x = idx) ps);
          ps' = filter (\<lambda>x. index x \<noteq> idx) ps
      in if idx > 0 then ps'
         else map (\<lambda>x. x\<lparr>index := index x - word_of_nat erasedCount\<rparr>) ps')"

primrec Detach_front_loop :: "nat \<Rightarrow> 'a FunctionParams list \<Rightarrow> 'a FunctionParams list" where
  "Detach_front_loop 0 ps = ps"
| "Detach_front_loop (Suc k) ps = Detach_front_loop k (DetachParameters 0 ps)"

primrec Detach_back_loop :: "nat \<Rightarrow> 'a FunctionParams list \<Rightarrow> 'a FunctionParams list" where
  "Detach_back_loop 0 ps = ps"
| "Detach_back_loop (Suc k) ps = Detach_back_loop k (DetachParameters (vsize ps - 1) ps)"

primrec pop_back_loop :: "nat \<Rightarrow> 'f list \<Rightarrow> error + 'f list" where
  "pop_back_loop 0 subs = Inr subs"
| "pop_back_loop (Suc k) subs =
     (if subs = [] then Inl PopBackOnEmpty else pop_back_loop k (butlast subs))"

text \<open>
  \<^verbatim>\<open>Remove(int count, bool fromBack)\<close>.  The comparison \<^verbatim>\<open>count < subscribers.size()\<close> is
  unsigned, \<^verbatim>\<open>subscribers.size() - 1\<close> is narrowed to \<^verbatim>\<open>int\<close>, and each loop compares its
  \<^verbatim>\<open>size_t\<close> counter with \<^verbatim>\<open>adjustedCount\<close> converted back to \<^verbatim>\<open>size_t\<close>.  The front branch
  erases the iterator range \<^verbatim>\<open>[begin, begin + count)\<close>, which is defined only for
  \<open>0 \<le> count \<le> size\<close>.
\<close>

definition adjustedCount :: "cint \<Rightarrow> 'f list \<Rightarrow> cint" where
  "adjustedCount count subs =
     (if int_to_size_t count < vsize subs then count else size_t_to_int (vsize subs - 1))"

definition Remove :: "cint \<Rightarrow> bool \<Rightarrow> ('f, 'a) DelegateBase \<Rightarrow> error + ('f, 'a) DelegateBase" where
  "Remove count fromBack d =
     (let bound = unat (int_to_size_t (adjustedCount count (subscribers d)))
      in if \<not> fromBack then
           (let ps = Detach_front_loop bound (parameters d)
            in if 0 \<le> sint count \<and> nat (sint count) \<le> length (subscribers d)
               then Inr \<lparr>subscribers = drop (nat (sint count)) (subscribers d), parameters = ps\<rparr>
               else Inl EraseOutOfRange)
         else
           (let ps = Detach_back_loop bound (parameters d)
            in case pop_back_loop bound (subscribers d) of
                 Inl e \<Rightarrow> Inl e
               | Inr subs \<Rightarrow> Inr \<lparr>subscribers = subs, parameters = ps\<rparr>))"

definition Clear :: "('f, 'a) DelegateBase \<Rightarrow> ('f, 'a) DelegateBase" where
  "Clear d = \<lparr>subscribers = [], parameters = []\<rparr>"

text \<open>\<^verbatim>\<open>operator+=\<close> and \<^verbatim>\<open>operator-=\<close> touch the subscribers only.\<close>

definition operator_plus_assign :: "'f \<Rightarrow> ('f, 'a) DelegateBase \<Rightarrow> ('f, 'a) DelegateBase" where
  "operator_plus_assign rhs d = d\<lparr>subscribers := subscribers d @ [rhs]\<rparr>"

definition operator_minus_assign :: "'f \<Rightarrow> ('f, 'a) DelegateBase \<Rightarrow> ('f, 'a) DelegateBase" where
  "operator_minus_assign rhs d = d\<lparr>subscribers := filter (\<lambda>x. x \<noteq> rhs) (subscribers d)\<rparr>"

text \<open>Prefix and postfix \<^verbatim>\<open>operator++\<close>.\<close>

definition operator_pre_increment :: "('f, 'a) DelegateBase \<Rightarrow> ('f, 'a) DelegateBase" where
  "operator_pre_increment d =
     (if subscribers d = [] then d
      else let newDel = hd (subscribers d) in
        if parameters d = [] then d\<lparr>subscribers := newDel # subscribers d\<rparr>
        else AttachParameters (params (hd (parameters d)))
               (d\<lparr>subscribers := newDel # subscribers d\<rparr>))"

definition operator_post_increment :: "('f, 'a) DelegateBase \<Rightarrow> ('f, 'a) DelegateBase" where
  "operator_post_increment d =
     (if subscribers d = [] then d
      else let newDel = last (subscribers d) in
        if parameters d = [] then d\<lparr>subscribers := subscribers d @ [newDel]\<rparr>
        else AttachParameters (params (last (parameters d)))
               (d\<lparr>subscribers := subscribers d @ [newDel]\<rparr>))"

text \<open>
  Prefix and postfix \<^verbatim>\<open>operator--\<close>.  \<^verbatim>\<open>int index = parameters.back().index\<close> narrows the
  stored index; \<^verbatim>\<open>erase(begin() + index)\<close> is defined only for a position below the size.
\<close>

definition erase_at :: "nat \<Rightarrow> 'x list \<Rightarrow> 'x list" where
  "erase_at i xs = take i xs @ drop (Suc i) xs"

definition operator_pre_decrement :: "('f, 'a) DelegateBase \<Rightarrow> error + ('f, 'a) DelegateBase" where
  "operator_pre_decrement d =
     (if subscribers d = [] then Inr d
      else if parameters d = [] then Inr (d\<lparr>subscribers := butlast (subscribers d)\<rparr>)
      else let idx = size_t_to_int (index (last (parameters d)));
               ps = butlast (parameters d)
           in if 0 \<le> sint idx \<and> nat (sint idx) < length (subscribers d)
              then Inr \<lparr>subscribers = erase_at (nat (sint idx)) (subscribers d), parameters = ps\<rparr>
              else Inl EraseOutOfRange)"

definition operator_post_decrement :: "('f, 'a) DelegateBase \<Rightarrow> error + ('f, 'a) DelegateBase" where
  "operator_post_decrement d =
     (if subscribers d = [] then Inr d
      else if parameters d = [] then Inr (d\<lparr>subscribers := butlast (subscribers d)\<rparr>)
      else let idx = size_t_to_int (index (last (parameters d)));
               ps = butlast (parameters d)
           in if 0 \<le> sint idx \<and> nat (sint idx) < length (subscribers d)
              then Inr \<lparr>subscribers = erase_at (nat (sint idx)) (subscribers d), parameters = ps\<rparr>
              else Inl EraseOutOfRange)"

section \<open>Invocation\<close>

text \<open>
  A call of a handle is given by an interpretation \<open>call\<close>: applied to the handle, the
  argument tuple and the state of the program outside the delegate, it yields the returned
  value and the new outside state.  A callable does not reach the delegate that is invoking
  it.  \<^verbatim>\<open>subscribers[index]\<close> with an \<^verbatim>\<open>int\<close> index converts the index to \<^verbatim>\<open>size_t\<close>; a position
  at or beyond the size is outside the vector.
\<close>

definition subscript :: "'f list \<Rightarrow> cint \<Rightarrow> error + 'f" where
  "subscript subs i =
     (let n = unat (int_to_size_t i)
      in if n < length subs then Inr (subs ! n) else Inl SubscriptOutOfRange)"

definition HelperInvoke ::
  "('f \<Rightarrow> 'a \<Rightarrow> 's \<Rightarrow> 'r \<times> 's) \<Rightarrow> 'f list \<Rightarrow> 'a \<Rightarrow> cint \<Rightarrow> 's \<Rightarrow> error + 'r \<times> 's" where
  "HelperInvoke call subs tuple i s =
     (case subscript subs i of Inl e \<Rightarrow> Inl e | Inr f \<Rightarrow> Inr (call f tuple s))"

text \<open>\<^verbatim>\<open>DelegateBase::Invoke()\<close>: the result of each call is discarded.\<close>

fun Invoke_loop ::
  "('f \<Rightarrow> 'a \<Rightarrow> 's \<Rightarrow> 'r \<times> 's) \<Rightarrow> 'f list \<Rightarrow> 'a FunctionParams list \<Rightarrow> 's \<Rightarrow> error + 's" where
  "Invoke_loop call subs [] s = Inr s"
| "Invoke_loop call subs (p # ps) s =
     (case HelperInvoke call subs (params p) (size_t_to_int (index p)) s of
        Inl e \<Rightarrow> Inl e
      | Inr (r, s') \<Rightarrow> Invoke_loop call subs ps s')"

definition Invoke ::
  "('f \<Rightarrow> 'a \<Rightarrow> 's \<Rightarrow> 'r \<times> 's) \<Rightarrow> ('f, 'a) DelegateBase \<Rightarrow> 's \<Rightarrow> error + 's" where
  "Invoke call d s = Invoke_loop call (subscribers d) (parameters d) s"

text \<open>
  \<^verbatim>\<open>RetDelegate::Invoke()\<close> hides the one of the base class.  It passes the loop counter
  \<^verbatim>\<open>i\<close> to \<^verbatim>\<open>HelperInvoke\<close>, and adds each result to \<^verbatim>\<open>result\<close>, which starts as
  \<^verbatim>\<open>ReturnType()\<close>.
\<close>

fun RetDelegate_Invoke_loop ::
  "('f \<Rightarrow> 'a \<Rightarrow> 's \<Rightarrow> 'r \<times> 's) \<Rightarrow> 'f list \<Rightarrow> 'a FunctionParams list \<Rightarrow> nat \<Rightarrow>
     'r::{plus,zero} \<Rightarrow> 's \<Rightarrow> error + 'r \<times> 's" where
  "RetDelegate_Invoke_loop call subs [] i result s = Inr (result, s)"
| "RetDelegate_Invoke_loop call subs (p # ps) i result s =
     (case HelperInvoke call subs (params p) (size_t_to_int (word_of_nat i)) s of
        Inl e \<Rightarrow> Inl e
      | Inr (r, s') \<Rightarrow> RetDelegate_Invoke_loop call subs ps (Suc i) (result + r) s')"

definition RetDelegate_Invoke ::
  "('f \<Rightarrow> 'a \<Rightarrow> 's \<Rightarrow> 'r \<times> 's) \<Rightarrow> ('f, 'a) DelegateBase \<Rightarrow> 's \<Rightarrow> error + 'r::{plus,zero} \<times> 's" where
  "RetDelegate_Invoke call d s =
     RetDelegate_Invoke_loop call (subscribers d) (parameters d) 0 0 s"

text \<open>\<^verbatim>\<open>RetDelegate::operator()(params...)\<close>; the local \<^verbatim>\<open>sum\<close> is \<open>sum_acc\<close> here.\<close>

fun RetDelegate_call_loop ::
  "('f \<Rightarrow> 'a \<Rightarrow> 's \<Rightarrow> 'r \<times> 's) \<Rightarrow> 'a \<Rightarrow> 'f list \<Rightarrow> 'r::{plus,zero} \<Rightarrow> 's \<Rightarrow> 'r \<times> 's" where
  "RetDelegate_call_loop call tuple [] sum_acc s = (sum_acc, s)"
| "RetDelegate_call_loop call tuple (i # rest) sum_acc s =
     (case call i tuple s of (r, s') \<Rightarrow> RetDelegate_call_loop call tuple rest (sum_acc + r) s')"

definition RetDelegate_operator_call ::
  "('f \<Rightarrow> 'a \<Rightarrow> 's \<Rightarrow> 'r \<times> 's) \<Rightarrow> 'a \<Rightarrow> ('f, 'a) DelegateBase \<Rightarrow> 's \<Rightarrow> 'r::{plus,zero} \<times> 's" where
  "RetDelegate_operator_call call tuple d s =
     RetDelegate_call_loop call tuple (subscribers d) 0 s"

text \<open>
  \<^verbatim>\<open>RetMemberDelegate::operator()(obj, params...)\<close>: the subscribers are member-function
  pointers \<open>'m\<close>, each applied to the object supplied at the call.
\<close>

record ('o, 'a) MemberFunctionParams =
  member_index :: size_t
  object :: 'o
  member_params :: 'a

record ('m, 'o, 'a) MemberDelegateBase =
  member_subscribers :: "'m list"
  member_parameters :: "('o, 'a) MemberFunctionParams list"

fun RetMemberDelegate_call_loop ::
  "('m \<Rightarrow> 'o \<Rightarrow> 'a \<Rightarrow> 's \<Rightarrow> 'r \<times> 's) \<Rightarrow> 'o \<Rightarrow> 'a \<Rightarrow> 'm list \<Rightarrow> 'r::{plus,zero} \<Rightarrow> 's \<Rightarrow> 'r \<times> 's" where
  "RetMemberDelegate_call_loop call obj tuple [] result s = (result, s)"
| "RetMemberDelegate_call_loop call obj tuple (i # rest) result s =
     (case call i obj tuple s of
        (r, s') \<Rightarrow> RetMemberDelegate_call_loop call obj tuple rest (result + r) s')"

definition RetMemberDelegate_operator_call ::
  "('m \<Rightarrow> 'o \<Rightarrow> 'a \<Rightarrow> 's \<Rightarrow> 'r \<times> 's) \<Rightarrow> 'o \<Rightarrow> 'a \<Rightarrow> ('m, 'o, 'a) MemberDelegateBase \<Rightarrow> 's \<Rightarrow>
     'r::{plus,zero} \<times> 's" where
  "RetMemberDelegate_operator_call call obj tuple d s =
     RetMemberDelegate_call_loop call obj tuple (member_subscribers d) 0 s"

section \<open>Operations on two delegates\<close>

text \<open>
  \<^verbatim>\<open>Combine\<close> and the shift operators take a second delegate by reference, which may be the
  first one.  They are modelled on a store of delegates indexed by address.  The loop of
  \<^verbatim>\<open>Combine\<close> re-reads \<^verbatim>\<open>other.subscribers.size()\<close> in every round, so it need not end when
  both references name one delegate: it is a partial function, \<open>None\<close> when it does not
  return.  \<^verbatim>\<open>other.parameters[i]\<close> is read after the \<^verbatim>\<open>push_back\<close>.
\<close>

type_synonym ('f, 'a) store = "nat \<Rightarrow> ('f, 'a) DelegateBase"

partial_function (option) Combine_loop ::
  "nat \<Rightarrow> nat \<Rightarrow> nat \<Rightarrow> ('f, 'a) store \<Rightarrow> (error + ('f, 'a) store) option" where
  "Combine_loop i this other h =
     (if i < length (subscribers (h other)) then
        (let h1 = h(this := push_back (subscribers (h other) ! i) (h this))
         in if i < length (parameters (h1 other)) then
              Combine_loop (Suc i) this other
                (h1(this := AttachParameters (params (parameters (h1 other) ! i)) (h1 this)))
            else Some (Inl SubscriptOutOfRange))
      else Some (Inr h))"

declare Combine_loop.simps [code]

definition Combine :: "nat \<Rightarrow> nat \<Rightarrow> ('f, 'a) store \<Rightarrow> (error + ('f, 'a) store) option" where
  "Combine this other h = Combine_loop 0 this other h"

definition operator_shift_left ::
  "nat \<Rightarrow> nat \<Rightarrow> ('f, 'a) store \<Rightarrow> (error + ('f, 'a) store) option" where
  "operator_shift_left this rhs h =
     (if this \<noteq> rhs then
        (case Combine this rhs h of
           None \<Rightarrow> None
         | Some (Inl e) \<Rightarrow> Some (Inl e)
         | Some (Inr h') \<Rightarrow> Some (Inr (h'(rhs := Clear (h' rhs)))))
      else Some (Inr h))"

definition operator_shift_right ::
  "nat \<Rightarrow> nat \<Rightarrow> ('f, 'a) store \<Rightarrow> (error + ('f, 'a) store) option" where
  "operator_shift_right this rhs h =
     (if this \<noteq> rhs then
        (case Combine rhs this h of
           None \<Rightarrow> None
         | Some (Inl e) \<Rightarrow> Some (Inl e)
         | Some (Inr h') \<Rightarrow> Some (Inr (h'(this := Clear (h' this)))))
      else Some (Inr h))"

section \<open>Invariant I1\<close>

definition I1 :: "('f, 'a) DelegateBase \<Rightarrow> bool" where
  "I1 d = list_all (\<lambda>p. unat (index p) < length (subscribers d)) (parameters d)"

section \<open>Sequences of \<^verbatim>\<open>Subscribe\<close> calls\<close>

text \<open>
  One call of \<^verbatim>\<open>Subscribe\<close> through any of its three overloads, and a sequence of such calls
  made one after the other on the same delegate.
\<close>

datatype ('f, 'a) subscribe_call =
  Single 'f 'a
| Functions "'f list" 'a
| Packs 'f "'a list"

fun do_subscribe :: "('f, 'a) subscribe_call \<Rightarrow> ('f, 'a) DelegateBase \<Rightarrow> ('f, 'a) DelegateBase" where
  "do_subscribe (Single f t) d = Subscribe f t d"
| "do_subscribe (Functions fs t) d = Subscribe_functions fs t d"
| "do_subscribe (Packs f ts) d = Subscribe_packs f ts d"

fun subscribe_all :: "('f, 'a) subscribe_call list \<Rightarrow> ('f, 'a) DelegateBase \<Rightarrow> ('f, 'a) DelegateBase" where
  "subscribe_all [] d = d"
| "subscribe_all (c # cs) d = subscribe_all cs (do_subscribe c d)"

text \<open>
  The specification's count: the number of argument tuples a call provides.  The two
  overloads with a parameter pack provide one tuple, the third one tuple per element of
  its vector.
\<close>

fun tuples_provided :: "('f, 'a) subscribe_call \<Rightarrow> nat" where
  "tuples_provided (Single f t) = 1"
| "tuples_provided (Functions fs t) = 1"
| "tuples_provided (Packs f ts) = length ts"

text \<open>
  The pairs of a function and an argument tuple that a call names: the list overload pairs
  every function of its list with the one tuple.
\<close>

fun pairs_provided :: "('f, 'a) subscribe_call \<Rightarrow> ('f \<times> 'a) list" where
  "pairs_provided (Single f t) = [(f, t)]"
| "pairs_provided (Functions fs t) = map (\<lambda>f. (f, t)) fs"
| "pairs_provided (Packs f ts) = map (\<lambda>t. (f, t)) ts"

text \<open>The snapshots for the tuples \<open>ts\<close> attached at the positions \<open>k, k + 1, \<dots>\<close>\<close>

definition snapshots_from :: "nat \<Rightarrow> 'a list \<Rightarrow> 'a FunctionParams list" where
  "snapshots_from k ts = map (\<lambda>(j, t). \<lparr>index = word_of_nat j, params = t\<rparr>) (enumerate k ts)"

text \<open>
  An interpretation that makes every call observable: the outside state is the log of the
  calls made so far, and a call appends its function and its arguments.
\<close>

definition record_call :: "'f \<Rightarrow> 'a \<Rightarrow> ('f \<times> 'a) list \<Rightarrow> unit \<times> ('f \<times> 'a) list" where
  "record_call f t log = ((), log @ [(f, t)])"

text \<open>
  The same for functions that return: \<open>v\<close> gives the value a function returns on its
  arguments.
\<close>

definition record_value_call ::
  "('f \<Rightarrow> 'a \<Rightarrow> 'r) \<Rightarrow> 'f \<Rightarrow> 'a \<Rightarrow> ('f \<times> 'a) list \<Rightarrow> 'r \<times> ('f \<times> 'a) list" where
  "record_value_call v f t log = (v f t, log @ [(f, t)])"

text \<open>
  What calling the functions \<open>fs\<close> one after the other with the same arguments gives: the
  list of the returned values, and the outside state after the last call.
\<close>

fun call_results :: "('f \<Rightarrow> 'a \<Rightarrow> 's \<Rightarrow> 'r \<times> 's) \<Rightarrow> 'a \<Rightarrow> 'f list \<Rightarrow> 's \<Rightarrow> 'r list" where
  "call_results call tuple [] s = []"
| "call_results call tuple (f # fs) s =
     fst (call f tuple s) # call_results call tuple fs (snd (call f tuple s))"

fun call_state :: "('f \<Rightarrow> 'a \<Rightarrow> 's \<Rightarrow> 'r \<times> 's) \<Rightarrow> 'a \<Rightarrow> 'f list \<Rightarrow> 's \<Rightarrow> 's" where
  "call_state call tuple [] s = s"
| "call_state call tuple (f # fs) s = call_state call tuple fs (snd (call f tuple s))"

text \<open>
  The states that subscribing alone produces: one snapshot per subscriber, the \<open>j\<close>-th
  snapshot with index \<open>j\<close>.
\<close>

definition canonical :: "('f, 'a) DelegateBase \<Rightarrow> bool" where
  "canonical d \<longleftrightarrow>
     length (parameters d) = length (subscribers d) \<and>
     parameters d = snapshots_from 0 (map params (parameters d))"

text \<open>
  The states reached from the empty delegate by the public operations, where \<^verbatim>\<open>Remove\<close> is
  used inside the range in which both of its branches agree: on a delegate with a
  subscriber, and from the front with a count below the size.  Sizes stay within
  \<open>2 ^ 31\<close> where an \<^verbatim>\<open>int\<close> holds a position.
\<close>

inductive guarded_reachable :: "('f, 'a) DelegateBase \<Rightarrow> bool" where
  reach_empty: "guarded_reachable empty_delegate"
| reach_subscribe: "guarded_reachable d \<Longrightarrow> guarded_reachable (do_subscribe c d)"
| reach_combine:
    "guarded_reachable (h this) \<Longrightarrow> guarded_reachable (h other) \<Longrightarrow> this \<noteq> other \<Longrightarrow>
     Combine this other h = Some (Inr h') \<Longrightarrow> guarded_reachable (h' this)"
| reach_remove_back:
    "guarded_reachable d \<Longrightarrow> subscribers d \<noteq> [] \<Longrightarrow> length (subscribers d) \<le> 2 ^ 31 \<Longrightarrow>
     Remove count True d = Inr d' \<Longrightarrow> guarded_reachable d'"
| reach_remove_front:
    "guarded_reachable d \<Longrightarrow> 0 \<le> sint count \<Longrightarrow> nat (sint count) < length (subscribers d) \<Longrightarrow>
     length (subscribers d) \<le> 2 ^ 31 \<Longrightarrow>
     Remove count False d = Inr d' \<Longrightarrow> guarded_reachable d'"
| reach_pre_increment: "guarded_reachable d \<Longrightarrow> guarded_reachable (operator_pre_increment d)"
| reach_post_increment: "guarded_reachable d \<Longrightarrow> guarded_reachable (operator_post_increment d)"
| reach_pre_decrement:
    "guarded_reachable d \<Longrightarrow> length (subscribers d) \<le> 2 ^ 31 \<Longrightarrow>
     operator_pre_decrement d = Inr d' \<Longrightarrow> guarded_reachable d'"
| reach_post_decrement:
    "guarded_reachable d \<Longrightarrow> length (subscribers d) \<le> 2 ^ 31 \<Longrightarrow>
     operator_post_decrement d = Inr d' \<Longrightarrow> guarded_reachable d'"
| reach_clear: "guarded_reachable d \<Longrightarrow> guarded_reachable (Clear d)"

text \<open>The functions of the examples in the README.\<close>

datatype handle = lambda1 | lambda2 | lambda3

section \<open>Conversions between \<^verbatim>\<open>int\<close> and \<^verbatim>\<open>size_t\<close>\<close>

lemma unat_int_to_size_t:
  "unat (int_to_size_t c) = (if 0 \<le> sint c then nat (sint c) else nat (2 ^ 64 + sint c))"
proof -
  have b: "- (2 ^ 31) \<le> sint c" "sint c < 2 ^ 31"
    using sint_ge [of c] sint_lt [of c] by simp_all
  have u: "uint (word_of_int (sint c) :: 64 word) = sint c mod 2 ^ 64"
    by (simp only: uint_word_of_int) simp
  have m: "sint c mod 2 ^ 64 = (if 0 \<le> sint c then sint c else 2 ^ 64 + sint c)"
  proof (cases "0 \<le> sint c")
    case True
    then show ?thesis using b by simp
  next
    case False
    have "(sint c + 2 ^ 64) mod 2 ^ 64 = sint c + 2 ^ 64"
      using b False by (intro mod_pos_pos_trivial) auto
    then show ?thesis using False by (simp add: add.commute)
  qed
  show ?thesis
    unfolding int_to_size_t_def unat_eq_nat_uint u m by simp
qed

lemma sint_word_of_nat_int:
  "n < 2 ^ 31 \<Longrightarrow> sint (word_of_nat n :: 32 word) = int n"
proof -
  assume a: "n < 2 ^ 31"
  have "sint (word_of_nat n :: 32 word) = signed_take_bit 31 (int n)"
    by (simp only: signed_of_nat) simp
  also have "\<dots> = int n"
    using a by (intro signed_take_bit_int_eq_self) auto
  finally show ?thesis .
qed

lemma sint_size_t_to_int:
  "unat w < 2 ^ 31 \<Longrightarrow> sint (size_t_to_int w) = int (unat w)"
  unfolding size_t_to_int_def by (rule sint_word_of_nat_int)

lemma unat_vsize: "length xs < 2 ^ 64 \<Longrightarrow> unat (vsize xs) = length xs"
  unfolding vsize_def by (simp add: unat_of_nat)

lemma unat_vsize_minus_1:
  "xs \<noteq> [] \<Longrightarrow> length xs < 2 ^ 64 \<Longrightarrow> unat (vsize xs - 1) = length xs - 1"
proof -
  assume a: "xs \<noteq> []" "length xs < 2 ^ 64"
  then have "vsize xs - 1 = word_of_nat (length xs - 1)"
    unfolding vsize_def by (cases xs) simp_all
  then show ?thesis using a by (simp add: unat_of_nat)
qed

lemma vsize_snoc: "vsize (xs @ [x]) - 1 = vsize xs"
  by (simp add: vsize_def)

section \<open>The loops of \<^verbatim>\<open>Remove\<close>\<close>

lemma pop_back_loop_take:
  "k \<le> length subs \<Longrightarrow> pop_back_loop k subs = Inr (take (length subs - k) subs)"
proof (induction k arbitrary: subs)
  case 0
  then show ?case by simp
next
  case (Suc k)
  then have ne: "subs \<noteq> []" by auto
  have "pop_back_loop k (butlast subs) = Inr (take (length (butlast subs) - k) (butlast subs))"
    using Suc.prems by (intro Suc.IH) simp
  then show ?case using ne by (simp add: butlast_conv_take take_take min_def) 
qed

lemma pop_back_loop_empty: "0 < k \<Longrightarrow> pop_back_loop k [] = Inl PopBackOnEmpty"
  by (cases k) simp_all

lemma adjustedCount_nonneg:
  assumes "0 \<le> sint count" "subs \<noteq> []" "length subs < 2 ^ 64"
  shows "unat (int_to_size_t (adjustedCount count subs)) = min (nat (sint count)) (length subs - 1)"
proof -
  have c: "unat (int_to_size_t count) = nat (sint count)"
    using assms(1) by (simp add: unat_int_to_size_t)
  have lt: "sint count < 2 ^ 31" using sint_lt [of count] by simp
  show ?thesis
  proof (cases "nat (sint count) < length subs")
    case True
    then have "int_to_size_t count < vsize subs"
      using assms by (simp add: word_less_nat_alt c unat_vsize)
    then show ?thesis using True c by (simp add: adjustedCount_def)
  next
    case False
    then have n: "\<not> int_to_size_t count < vsize subs"
      using assms by (simp add: word_less_nat_alt c unat_vsize)
    have "nat (sint count) < 2 ^ 31" using lt assms(1) by (simp add: nat_less_iff)
    then have small: "length subs - 1 < 2 ^ 31" using False by simp
    have u: "unat (vsize subs - 1) = length subs - 1"
      using assms by (simp add: unat_vsize_minus_1)
    have "sint (size_t_to_int (vsize subs - 1)) = int (length subs - 1)"
      using small u sint_size_t_to_int [of "vsize subs - 1"] by simp
    then have "unat (int_to_size_t (size_t_to_int (vsize subs - 1))) = length subs - 1"
      by (simp add: unat_int_to_size_t)
    then show ?thesis using n False by (simp add: adjustedCount_def)
  qed
qed

lemma adjustedCount_negative:
  assumes "sint count < 0" "subs \<noteq> []" "length subs \<le> 2 ^ 31"
  shows "unat (int_to_size_t (adjustedCount count subs)) = length subs - 1"
proof -
  have ge: "- (2 ^ 31) \<le> sint count" using sint_ge [of count] by simp
  have c: "unat (int_to_size_t count) = nat (2 ^ 64 + sint count)"
    using assms(1) by (simp add: unat_int_to_size_t)
  have l64: "length subs < 2 ^ 64" using assms(3) by simp
  have "length subs \<le> nat (2 ^ 64 + sint count)" using ge assms(3) by simp
  then have n: "\<not> int_to_size_t count < vsize subs"
    using l64 by (simp add: word_less_nat_alt c unat_vsize)
  have small: "length subs - 1 < 2 ^ 31" using assms by (cases subs) auto
  have u: "unat (vsize subs - 1) = length subs - 1"
    using assms l64 by (simp add: unat_vsize_minus_1)
  have "sint (size_t_to_int (vsize subs - 1)) = int (length subs - 1)"
    using small u sint_size_t_to_int [of "vsize subs - 1"] by simp
  then have "unat (int_to_size_t (size_t_to_int (vsize subs - 1))) = length subs - 1"
    by (simp add: unat_int_to_size_t)
  then show ?thesis using n by (simp add: adjustedCount_def)
qed

lemma adjustedCount_empty:
  "unat (int_to_size_t (adjustedCount count ([] :: 'f list))) = 2 ^ 64 - 1"
proof -
  have "ucast (- 1 :: 64 word) = (- 1 :: 32 word)"
    by (rule bit_word_eqI) (simp add: bit_simps)
  then have "adjustedCount count ([] :: 'f list) = (-1 :: 32 word)"
    by (simp add: adjustedCount_def vsize_def size_t_to_int_def)
  then have "sint (adjustedCount count ([] :: 'f list)) = - 1" by simp
  then show ?thesis by (simp only: unat_int_to_size_t) simp
qed

lemma DetachParameters_Nil: "DetachParameters idx [] = []"
  by (simp add: DetachParameters_def)

lemma Detach_back_loop_Nil: "Detach_back_loop k [] = []"
  by (induction k) (simp_all add: DetachParameters_Nil)

lemma Detach_front_loop_Nil: "Detach_front_loop k [] = []"
  by (induction k) (simp_all add: DetachParameters_Nil)

lemma Remove_back_empty: "Remove count True \<lparr>subscribers = [], parameters = ps\<rparr> = Inl PopBackOnEmpty"
  by (simp add: Remove_def adjustedCount_empty pop_back_loop_empty)

text \<open>
  C10.  A negative \<^verbatim>\<open>count\<close> is converted to \<^verbatim>\<open>size_t\<close> for the comparison with the size, so it
  is never below the size and \<^verbatim>\<open>adjustedCount\<close> becomes \<open>size - 1\<close>: on a delegate with
  \<open>n \<ge> 1\<close> subscribers (at most \<open>2 ^ 31\<close>, so that \<open>n - 1\<close> is an \<^verbatim>\<open>int\<close>),
  \<^verbatim>\<open>Remove(count, true)\<close> returns normally, has popped \<open>n - 1\<close> subscribers and keeps only the
  first one; the snapshots went through \<open>n - 1\<close> rounds of the back loop.
\<close>

theorem Remove_negative_count_from_back:
  assumes "sint count < 0" and "subscribers d \<noteq> []" and "length (subscribers d) \<le> 2 ^ 31"
  shows "Remove count True d =
           Inr \<lparr>subscribers = take (length (subscribers d) - (length (subscribers d) - 1)) (subscribers d),
                parameters = Detach_back_loop (length (subscribers d) - 1) (parameters d)\<rparr>
         \<and> take (length (subscribers d) - (length (subscribers d) - 1)) (subscribers d)
             = [hd (subscribers d)]"
proof -
  let ?n = "length (subscribers d)"
  have b: "unat (int_to_size_t (adjustedCount count (subscribers d))) = ?n - 1"
    using assms by (rule adjustedCount_negative)
  have p: "pop_back_loop (?n - 1) (subscribers d) = Inr (take (?n - (?n - 1)) (subscribers d))"
    by (rule pop_back_loop_take) simp
  have t: "take (?n - (?n - 1)) (subscribers d) = [hd (subscribers d)]"
    using assms(2) by (cases "subscribers d") simp_all
  show ?thesis using t p by (simp add: Remove_def b Let_def)
qed

theorem Remove_negative_count_from_back_witness:
  "sint (- 1 :: cint) < 0
   \<and> Remove (- 1) True (Subscribe_packs lambda1 [4, 6, 8 :: int] empty_delegate)
       = Inr \<lparr>subscribers = [lambda1], parameters = [\<lparr>index = 0, params = 4\<rparr>]\<rparr>"
proof -
  let ?d = "Subscribe_packs lambda1 [4, 6, 8 :: int] empty_delegate"
  have h1: "sint (- 1 :: cint) < 0" by simp
  have h2: "subscribers ?d \<noteq> []" by code_simp
  have h3: "length (subscribers ?d) \<le> 2 ^ 31"
  proof -
    have "length (subscribers ?d) = 3" by code_simp
    then show ?thesis by simp
  qed
  have e1: "hd (subscribers ?d) = lambda1" by code_simp
  have e2: "Detach_back_loop (length (subscribers ?d) - 1) (parameters ?d)
              = [\<lparr>index = 0, params = 4\<rparr>]" by code_simp
  show ?thesis
    using Remove_negative_count_from_back [OF h1 h2 h3] h1 e1 e2 by simp
qed

text \<open>
  C6.  On the empty delegate \<^verbatim>\<open>Remove()\<close> (count 1, from the back) does not return normally:
  \<^verbatim>\<open>subscribers.size() - 1\<close> wraps, \<^verbatim>\<open>adjustedCount\<close> is \<open>-1\<close>, the loop bound is
  \<open>2 ^ 64 - 1\<close>, and the first \<^verbatim>\<open>pop_back\<close> meets an empty vector.
\<close>

theorem Remove_on_empty_delegate:
  "Remove 1 True (empty_delegate :: (handle, int) DelegateBase) = Inl PopBackOnEmpty"
  unfolding empty_delegate_def by (rule Remove_back_empty)

text \<open>The other removal operations leave the empty delegate as it is.\<close>

lemma removal_operators_on_empty:
  "operator_pre_decrement empty_delegate = Inr empty_delegate"
  "operator_post_decrement empty_delegate = Inr empty_delegate"
  "operator_minus_assign rhs empty_delegate = empty_delegate"
  by (simp_all add: operator_pre_decrement_def operator_post_decrement_def
        operator_minus_assign_def empty_delegate_def)

lemma Remove_front_empty:
  "Remove count False empty_delegate =
     (if count = 0 then Inr empty_delegate else Inl EraseOutOfRange)"
proof -
  have "sint count = 0 \<longleftrightarrow> count = 0"
    by (rule signed_eq_0_iff)
  then have "0 \<le> sint count \<and> nat (sint count) \<le> 0 \<longleftrightarrow> count = 0"
    by auto
  then show ?thesis
    by (simp add: Remove_def empty_delegate_def Detach_front_loop_Nil)
qed

text \<open>
  C4.  From the front, \<^verbatim>\<open>Remove(2, false)\<close> on a delegate with two subscribers detaches
  \<^verbatim>\<open>adjustedCount = 1\<close> snapshot but erases \<^verbatim>\<open>count = 2\<close> subscribers: no subscriber is left
  (not one), and one snapshot survives.
\<close>

theorem Remove_front_count_eq_size:
  "Remove 2 False (Subscribe_packs lambda1 [4, 6 :: int] empty_delegate)
     = Inr \<lparr>subscribers = [], parameters = [\<lparr>index = 0, params = 6\<rparr>]\<rparr>"
  by code_simp

text \<open>
  C1.  The state reached from the empty delegate by \<^verbatim>\<open>Subscribe(lambda1, {4, 6, 8})\<close> and
  \<^verbatim>\<open>Remove(3, false)\<close> has a snapshot with index 0 and no subscriber: invariant I1 fails.
\<close>

theorem I1_broken_by_Remove_front:
  "Remove 3 False (Subscribe_packs lambda1 [4, 6, 8 :: int] empty_delegate)
     = Inr \<lparr>subscribers = [], parameters = [\<lparr>index = 0, params = 8\<rparr>]\<rparr>
   \<and> \<not> I1 \<lparr>subscribers = ([] :: handle list), parameters = [\<lparr>index = 0, params = 8 :: int\<rparr>]\<rparr>"
  by code_simp

section \<open>Subscribing\<close>

lemma snapshots_from_Nil: "snapshots_from k [] = []"
  by (simp add: snapshots_from_def)

lemma snapshots_from_Cons:
  "snapshots_from k (t # ts) = \<lparr>index = word_of_nat k, params = t\<rparr> # snapshots_from (Suc k) ts"
  by (simp add: snapshots_from_def)

lemma snapshots_from_append:
  "snapshots_from k (ts @ us) = snapshots_from k ts @ snapshots_from (k + length ts) us"
  by (simp add: snapshots_from_def enumerate_append_eq)

lemma length_snapshots_from: "length (snapshots_from k ts) = length ts"
  by (simp add: snapshots_from_def)

lemma Subscribe_appends:
  "Subscribe f t d = \<lparr>subscribers = subscribers d @ [f],
                      parameters = parameters d @ snapshots_from (length (subscribers d)) [t]\<rparr>"
  by (simp add: Subscribe_def AttachParameters_def push_back_def vsize_def snapshots_from_def)

lemma attach_push:
  "AttachParameters t (push_back f d) = Subscribe f t d"
  by (simp add: Subscribe_def)

lemma Subscribe_functions_appends:
  "Subscribe_functions fs t d =
     \<lparr>subscribers = subscribers d @ fs,
      parameters = parameters d @ snapshots_from (length (subscribers d)) (map (\<lambda>f. t) fs)\<rparr>"
proof (induction fs arbitrary: d)
  case Nil
  then show ?case by (simp add: snapshots_from_Nil)
next
  case (Cons f fs)
  show ?case
    by (simp add: attach_push Cons.IH Subscribe_appends snapshots_from_Cons snapshots_from_Nil)
qed

lemma Subscribe_packs_appends:
  "Subscribe_packs f ts d =
     \<lparr>subscribers = subscribers d @ map (\<lambda>t. f) ts,
      parameters = parameters d @ snapshots_from (length (subscribers d)) ts\<rparr>"
proof (induction ts arbitrary: d)
  case Nil
  then show ?case by (simp add: snapshots_from_Nil)
next
  case (Cons t ts)
  show ?case
    by (simp add: attach_push Cons.IH Subscribe_appends snapshots_from_Cons snapshots_from_Nil)
qed

lemma do_subscribe_appends:
  "do_subscribe c d =
     \<lparr>subscribers = subscribers d @ map fst (pairs_provided c),
      parameters = parameters d @ snapshots_from (length (subscribers d)) (map snd (pairs_provided c))\<rparr>"
  by (cases c) (simp_all add: Subscribe_appends Subscribe_functions_appends Subscribe_packs_appends comp_def)

text \<open>
  C2, as amended.  A sequence of \<^verbatim>\<open>Subscribe\<close> calls appends, in order, one subscriber and one
  snapshot for every pair of a function and an argument tuple that the calls name; the
  snapshot of the \<open>j\<close>-th new pair has the index of the \<open>j\<close>-th new subscriber and the
  tuple of the pair.  Started on the empty delegate, subscribers and snapshots both number
  as many as the pairs.
\<close>

theorem subscribe_all_appends:
  "subscribe_all cs d =
     \<lparr>subscribers = subscribers d @ map fst (concat (map pairs_provided cs)),
      parameters = parameters d @
        snapshots_from (length (subscribers d)) (map snd (concat (map pairs_provided cs)))\<rparr>
   \<and> length (subscribers (subscribe_all cs empty_delegate)) = length (concat (map pairs_provided cs))
   \<and> length (parameters (subscribe_all cs empty_delegate)) = length (concat (map pairs_provided cs))"
proof -
  have main: "subscribe_all cs d =
     \<lparr>subscribers = subscribers d @ map fst (concat (map pairs_provided cs)),
      parameters = parameters d @
        snapshots_from (length (subscribers d)) (map snd (concat (map pairs_provided cs)))\<rparr>" for d :: "('a, 'b) DelegateBase"
  proof (induction cs arbitrary: d)
    case Nil
    then show ?case by (simp add: snapshots_from_Nil)
  next
    case (Cons c cs)
    show ?case
      by (simp add: Cons.IH do_subscribe_appends snapshots_from_append)
  qed
  have e: "subscribe_all cs empty_delegate =
     \<lparr>subscribers = map fst (concat (map pairs_provided cs)),
      parameters = snapshots_from 0 (map snd (concat (map pairs_provided cs)))\<rparr>"
    by (simp add: main [of empty_delegate]) (simp add: empty_delegate_def)
  have l1: "length (subscribers (subscribe_all cs empty_delegate)) = length (concat (map pairs_provided cs))"
    by (simp only: e DelegateBase.simps length_map)
  have l2: "length (parameters (subscribe_all cs empty_delegate)) = length (concat (map pairs_provided cs))"
    by (simp only: e DelegateBase.simps length_map length_snapshots_from)
  show ?thesis
    using main [of d] l1 l2 by (intro conjI)
qed

text \<open>
  C2, as stated, fails for the list overload: \<^verbatim>\<open>Subscribe({lambda1, lambda2, lambda3}, 21)\<close>
  provides one argument tuple and leaves three subscribers and three snapshots.
\<close>

theorem tuples_provided_counterexample:
  "length (subscribers (subscribe_all [Functions [lambda1, lambda2, lambda3] (21 :: int)] empty_delegate)) = 3
   \<and> length (parameters (subscribe_all [Functions [lambda1, lambda2, lambda3] (21 :: int)] empty_delegate)) = 3
   \<and> sum_list (map tuples_provided [Functions [lambda1, lambda2, lambda3] (21 :: int)]) = 1"
  by code_simp

section \<open>Replay of the snapshots\<close>

lemma vsize_Cons: "vsize (x # xs) - 1 = vsize xs"
  by (simp add: vsize_def)

lemma subscript_size_t_to_int:
  assumes "unat w < length subs" and "length subs \<le> 2 ^ 31"
  shows "subscript subs (size_t_to_int w) = Inr (subs ! unat w)"
proof -
  have small: "unat w < 2 ^ 31" using assms by simp
  then have "sint (size_t_to_int w) = int (unat w)" by (rule sint_size_t_to_int)
  then have "unat (int_to_size_t (size_t_to_int w)) = unat w"
    by (simp only: unat_int_to_size_t) simp
  then show ?thesis using assms(1) by (simp add: subscript_def)
qed

lemma Invoke_loop_in_range:
  assumes "list_all (\<lambda>p. unat (index p) < length subs) ps" and "length subs \<le> 2 ^ 31"
  shows "Invoke_loop call subs ps s =
           Inr (foldl (\<lambda>s p. snd (call (subs ! unat (index p)) (params p) s)) s ps)"
  using assms(1)
proof (induction ps arbitrary: s)
  case Nil
  then show ?case by simp
next
  case (Cons p ps)
  then have "unat (index p) < length subs" by simp
  then have sub: "subscript subs (size_t_to_int (index p)) = Inr (subs ! unat (index p))"
    using assms(2) by (rule subscript_size_t_to_int)
  have rest: "list_all (\<lambda>p. unat (index p) < length subs) ps" using Cons.prems by simp
  show ?case
    by (simp add: HelperInvoke_def sub Cons.IH [OF rest] split: prod.split)
qed

text \<open>
  \<^verbatim>\<open>DelegateBase::Invoke\<close> on a state with I1: every snapshot, in the order of the snapshots,
  is replayed on the subscriber at its index.
\<close>

lemma Invoke_dispatches_by_index:
  assumes "I1 d" and "length (subscribers d) \<le> 2 ^ 31"
  shows "Invoke call d s =
           Inr (foldl (\<lambda>s p. snd (call (subscribers d ! unat (index p)) (params p) s)) s (parameters d))"
  unfolding Invoke_def using assms by (intro Invoke_loop_in_range) (simp_all add: I1_def)

section \<open>The increment operators\<close>

text \<open>
  C7.  On a delegate with a subscriber, prefix \<^verbatim>\<open>++\<close> inserts a copy of the first subscriber
  at position 0 and postfix \<^verbatim>\<open>++\<close> appends a copy of the last subscriber.  Where the delegate
  has a snapshot, prefix \<^verbatim>\<open>++\<close> also appends a snapshot with the argument tuple of the first
  snapshot and postfix \<^verbatim>\<open>++\<close> one with the argument tuple of the last snapshot, in both cases
  with the index of the last position of the grown vector; where it has none (subscribers
  added with \<^verbatim>\<open>+=\<close> only), no snapshot is attached.  On a delegate without subscribers both
  change nothing.  After \<^verbatim>\<open>Subscribe(f, {4, 6, 8})\<close> and postfix \<^verbatim>\<open>++\<close>, \<^verbatim>\<open>Invoke()\<close> calls \<open>f\<close> with
  4, 6, 8, 8 in that order.
\<close>

theorem increment_duplicates:
  "(subscribers d \<noteq> [] \<and> parameters d \<noteq> [] \<longrightarrow>
      operator_pre_increment d =
        \<lparr>subscribers = hd (subscribers d) # subscribers d,
         parameters = parameters d @
           [\<lparr>index = vsize (subscribers d), params = params (hd (parameters d))\<rparr>]\<rparr>
    \<and> operator_post_increment d =
        \<lparr>subscribers = subscribers d @ [last (subscribers d)],
         parameters = parameters d @
           [\<lparr>index = vsize (subscribers d), params = params (last (parameters d))\<rparr>]\<rparr>)
   \<and> (subscribers d \<noteq> [] \<and> parameters d = [] \<longrightarrow>
      operator_pre_increment d =
        \<lparr>subscribers = hd (subscribers d) # subscribers d, parameters = []\<rparr>
    \<and> operator_post_increment d =
        \<lparr>subscribers = subscribers d @ [last (subscribers d)], parameters = []\<rparr>)
   \<and> (subscribers d = [] \<longrightarrow> operator_pre_increment d = d \<and> operator_post_increment d = d)
   \<and> Invoke record_call
        (operator_post_increment (Subscribe_packs f [4, 6, 8 :: int] empty_delegate)) []
       = Inr [(f, 4), (f, 6), (f, 8), (f, 8)]"
proof -
  have dup: "subscribers d \<noteq> [] \<and> parameters d \<noteq> [] \<longrightarrow>
      operator_pre_increment d =
        \<lparr>subscribers = hd (subscribers d) # subscribers d,
         parameters = parameters d @
           [\<lparr>index = vsize (subscribers d), params = params (hd (parameters d))\<rparr>]\<rparr>
    \<and> operator_post_increment d =
        \<lparr>subscribers = subscribers d @ [last (subscribers d)],
         parameters = parameters d @
           [\<lparr>index = vsize (subscribers d), params = params (last (parameters d))\<rparr>]\<rparr>"
    by (simp add: operator_pre_increment_def operator_post_increment_def AttachParameters_def
          vsize_Cons vsize_snoc Let_def)
  have bare: "subscribers d \<noteq> [] \<and> parameters d = [] \<longrightarrow>
      operator_pre_increment d =
        \<lparr>subscribers = hd (subscribers d) # subscribers d, parameters = []\<rparr>
    \<and> operator_post_increment d =
        \<lparr>subscribers = subscribers d @ [last (subscribers d)], parameters = []\<rparr>"
    by (simp add: operator_pre_increment_def operator_post_increment_def Let_def)
  have noop: "subscribers d = [] \<longrightarrow> operator_pre_increment d = d \<and> operator_post_increment d = d"
    by (simp add: operator_pre_increment_def operator_post_increment_def)
  have st: "operator_post_increment (Subscribe_packs f [4, 6, 8 :: int] empty_delegate)
            = \<lparr>subscribers = [f, f, f, f], parameters = snapshots_from 0 [4, 6, 8, 8]\<rparr>"
    by (simp add: operator_post_increment_def Subscribe_packs_appends empty_delegate_def
          AttachParameters_def snapshots_from_def vsize_def)
  have scenario: "Invoke record_call
        (operator_post_increment (Subscribe_packs f [4, 6, 8 :: int] empty_delegate)) []
       = Inr [(f, 4), (f, 6), (f, 8), (f, 8)]"
    unfolding st Invoke_def
    by (subst Invoke_loop_in_range) (simp_all add: snapshots_from_def record_call_def)
  show ?thesis using dup bare noop scenario by (intro conjI)
qed

theorem increment_duplicates_witness:
  "operator_pre_increment
     \<lparr>subscribers = [lambda1, lambda1, lambda2],
      parameters = [\<lparr>index = 0, params = 4 :: int\<rparr>, \<lparr>index = 1, params = 6\<rparr>,
                    \<lparr>index = 2, params = - 5\<rparr>]\<rparr>
     = \<lparr>subscribers = [lambda1, lambda1, lambda1, lambda2],
        parameters = [\<lparr>index = 0, params = 4\<rparr>, \<lparr>index = 1, params = 6\<rparr>,
                      \<lparr>index = 2, params = - 5\<rparr>, \<lparr>index = 3, params = 4\<rparr>]\<rparr>
   \<and> operator_post_increment
     \<lparr>subscribers = [lambda1, lambda1, lambda2],
      parameters = [\<lparr>index = 0, params = 4 :: int\<rparr>, \<lparr>index = 1, params = 6\<rparr>,
                    \<lparr>index = 2, params = - 5\<rparr>]\<rparr>
     = \<lparr>subscribers = [lambda1, lambda1, lambda2, lambda2],
        parameters = [\<lparr>index = 0, params = 4\<rparr>, \<lparr>index = 1, params = 6\<rparr>,
                      \<lparr>index = 2, params = - 5\<rparr>, \<lparr>index = 3, params = - 5\<rparr>]\<rparr>
   \<and> operator_pre_increment
     \<lparr>subscribers = [lambda1, lambda2], parameters = ([] :: int FunctionParams list)\<rparr>
     = \<lparr>subscribers = [lambda1, lambda1, lambda2], parameters = []\<rparr>
   \<and> operator_post_increment
     \<lparr>subscribers = [lambda1, lambda2], parameters = ([] :: int FunctionParams list)\<rparr>
     = \<lparr>subscribers = [lambda1, lambda2, lambda2], parameters = []\<rparr>
   \<and> operator_pre_increment \<lparr>subscribers = ([] :: handle list), parameters = ([] :: int FunctionParams list)\<rparr>
     = \<lparr>subscribers = [], parameters = []\<rparr>
   \<and> operator_post_increment \<lparr>subscribers = ([] :: handle list), parameters = ([] :: int FunctionParams list)\<rparr>
     = \<lparr>subscribers = [], parameters = []\<rparr>"
  using increment_duplicates
          [of "\<lparr>subscribers = [lambda1, lambda1, lambda2],
                parameters = [\<lparr>index = 0, params = 4 :: int\<rparr>, \<lparr>index = 1, params = 6\<rparr>,
                              \<lparr>index = 2, params = - 5\<rparr>]\<rparr>" lambda1]
        increment_duplicates
          [of "\<lparr>subscribers = [lambda1, lambda2], parameters = ([] :: int FunctionParams list)\<rparr>"
              lambda1]
        increment_duplicates
          [of "\<lparr>subscribers = ([] :: handle list), parameters = ([] :: int FunctionParams list)\<rparr>"
              lambda1]
  by (simp add: vsize_def)

text \<open>
  Prefix \<^verbatim>\<open>++\<close> leaves the indices of the older snapshots as they are, so after it every
  older snapshot is replayed on the subscriber one position before its own, and the new
  snapshot on the last subscriber.
\<close>

lemma pre_increment_replay:
  "Invoke record_call
     (operator_pre_increment
        (Subscribe lambda2 (- 5) (Subscribe_packs lambda1 [4, 6 :: int] empty_delegate))) []
     = Inr [(lambda1, 4), (lambda1, 6), (lambda1, - 5), (lambda2, 4)]"
  by code_simp

section \<open>The decrement operators\<close>



section \<open>Invocation with fresh arguments\<close>

lemma RetDelegate_call_loop_foldl:
  "RetDelegate_call_loop call tuple fs acc s =
     (foldl (+) acc (call_results call tuple fs s), call_state call tuple fs s)"
  by (induction fs arbitrary: acc s) (simp_all split: prod.split)

lemma RetMemberDelegate_call_loop_foldl:
  "RetMemberDelegate_call_loop call obj tuple ms acc s =
     (foldl (+) acc (call_results (\<lambda>m. call m obj) tuple ms s),
      call_state (\<lambda>m. call m obj) tuple ms s)"
  by (induction ms arbitrary: acc s) (simp_all split: prod.split)

lemma foldl_plus_sum_list: "foldl (+) (a :: 'r :: monoid_add) xs = a + sum_list xs"
  by (induction xs arbitrary: a) (simp_all add: add.assoc)

text \<open>
  C9.  \<^verbatim>\<open>RetDelegate::operator()\<close> and \<^verbatim>\<open>RetMemberDelegate::operator()\<close> call the subscribers in
  their order with the given arguments (the member variant on the given object) and return
  the values added up from the left, starting from the default value of the return type;
  without subscribers the result is that default value and nothing is called.
\<close>

theorem operator_call_sums:
  "RetDelegate_operator_call call tuple d s =
     (foldl (+) 0 (call_results call tuple (subscribers d) s),
      call_state call tuple (subscribers d) s)
   \<and> RetMemberDelegate_operator_call mcall obj tuple md s =
     (foldl (+) 0 (call_results (\<lambda>m. mcall m obj) tuple (member_subscribers md) s),
      call_state (\<lambda>m. mcall m obj) tuple (member_subscribers md) s)
   \<and> RetDelegate_operator_call call tuple \<lparr>subscribers = [], parameters = ps\<rparr> s = (0, s)
   \<and> RetMemberDelegate_operator_call mcall obj tuple
        \<lparr>member_subscribers = [], member_parameters = mps\<rparr> s = (0, s)"
  by (simp add: RetDelegate_operator_call_def RetMemberDelegate_operator_call_def
        RetDelegate_call_loop_foldl RetMemberDelegate_call_loop_foldl)

lemma operator_call_sum_list:
  "fst (RetDelegate_operator_call call tuple d s :: ('r :: monoid_add) \<times> 's) =
     sum_list (call_results call tuple (subscribers d) s)"
  by (simp add: RetDelegate_operator_call_def RetDelegate_call_loop_foldl foldl_plus_sum_list)

lemma call_results_pure:
  "(\<And>f t s. call f t s = (v f t, s)) \<Longrightarrow> call_results call tuple fs s = map (\<lambda>f. v f tuple) fs"
  by (induction fs arbitrary: s) simp_all

section \<open>Replay in \<^verbatim>\<open>RetDelegate\<close>\<close>

text \<open>
  C3.  After \<^verbatim>\<open>del += lambda1; del.Subscribe(lambda2, 5)\<close> the only snapshot has index 1.
  \<^verbatim>\<open>DelegateBase::Invoke\<close> calls \<open>lambda2\<close>, the subscriber at that index;
  \<^verbatim>\<open>RetDelegate::Invoke\<close> calls \<open>lambda1\<close>, the subscriber at the position of the snapshot.
\<close>

theorem RetDelegate_Invoke_uses_position:
  "RetDelegate_Invoke (record_value_call (\<lambda>f t. case f of lambda1 \<Rightarrow> 100 + t | lambda2 \<Rightarrow> t | lambda3 \<Rightarrow> 0))
     (Subscribe lambda2 (5 :: int) (operator_plus_assign lambda1 empty_delegate)) []
     = Inr (105, [(lambda1, 5)])
   \<and> Invoke (record_value_call (\<lambda>f t. case f of lambda1 \<Rightarrow> 100 + t | lambda2 \<Rightarrow> t | lambda3 \<Rightarrow> 0))
     (Subscribe lambda2 (5 :: int) (operator_plus_assign lambda1 empty_delegate)) []
     = Inr [(lambda2, 5)]
   \<and> Subscribe lambda2 (5 :: int) (operator_plus_assign lambda1 empty_delegate)
     = \<lparr>subscribers = [lambda1, lambda2], parameters = [\<lparr>index = 1, params = 5\<rparr>]\<rparr>"
  by code_simp


lemma RetDelegate_Invoke_loop_ignores_index:
  "map params ps = map params qs \<Longrightarrow>
     RetDelegate_Invoke_loop call subs ps i acc s = RetDelegate_Invoke_loop call subs qs i acc s"
proof (induction ps arbitrary: qs i acc s)
  case Nil
  then show ?case by simp
next
  case (Cons p ps)
  then obtain q qs' where q: "qs = q # qs'" "params p = params q" "map params ps = map params qs'"
    by (cases qs) auto
  show ?case
    unfolding q(1) by (simp add: q(2) Cons.IH [OF q(3)] split: sum.split prod.split)
qed

section \<open>\<^verbatim>\<open>Combine\<close> and the shift operators\<close>

lemma DelegateBase_eta: "\<lparr>subscribers = subscribers d, parameters = parameters d\<rparr> = d"
  by simp

lemma take_drop_step:
  "i < n \<Longrightarrow> n \<le> length ps \<Longrightarrow>
     take (n - i) (drop i ps) = ps ! i # take (n - Suc i) (drop (Suc i) ps)"
proof -
  assume a: "i < n" "n \<le> length ps"
  then have "drop i ps = ps ! i # drop (Suc i) ps" by (simp add: Cons_nth_drop_Suc)
  moreover have "n - i = Suc (n - Suc i)" using a by simp
  ultimately show ?thesis by simp
qed

lemma Combine_loop_distinct:
  assumes "this \<noteq> other"
    and "length (subscribers (h other)) \<le> length (parameters (h other))"
    and "i \<le> length (subscribers (h other))"
  shows "Combine_loop i this other h =
           Some (Inr (h(this :=
             \<lparr>subscribers = subscribers (h this) @ drop i (subscribers (h other)),
              parameters = parameters (h this) @
                snapshots_from (length (subscribers (h this)))
                  (map params (take (length (subscribers (h other)) - i)
                                 (drop i (parameters (h other)))))\<rparr>)))"
  using assms
proof (induction "length (subscribers (h other)) - i" arbitrary: i h)
  case 0
  then have "i = length (subscribers (h other))" by simp
  then show ?case
    by (subst Combine_loop.simps) (simp add: snapshots_from_Nil DelegateBase_eta)
next
  case (Suc k)
  let ?n = "length (subscribers (h other))"
  let ?x = "subscribers (h other) ! i"
  let ?t = "params (parameters (h other) ! i)"
  let ?h1 = "h(this := push_back ?x (h this))"
  let ?h2 = "?h1(this := AttachParameters ?t (?h1 this))"
  have lt: "i < ?n" using Suc.hyps(2) by simp
  have o1: "?h1 other = h other" using Suc.prems(1) by simp
  have o2: "?h2 other = h other" using Suc.prems(1) by simp
  have this2: "?h2 this =
      \<lparr>subscribers = subscribers (h this) @ [?x],
       parameters = parameters (h this) @
         [\<lparr>index = word_of_nat (length (subscribers (h this))), params = ?t\<rparr>]\<rparr>"
    by (simp add: push_back_def AttachParameters_def vsize_def)
  have step: "Combine_loop i this other h = Combine_loop (Suc i) this other ?h2"
  proof -
    have "Combine_loop i this other h =
            (let h1 = h(this := push_back (subscribers (h other) ! i) (h this))
             in Combine_loop (Suc i) this other
                  (h1(this := AttachParameters (params (parameters (h1 other) ! i)) (h1 this))))"
      using lt Suc.prems(1,2) by (simp add: Combine_loop.simps [of i this other h] Let_def)
    then show ?thesis using Suc.prems(1) by (simp add: Let_def)
  qed
  have k: "k = length (subscribers (?h2 other)) - Suc i"
    using Suc.hyps(2) Suc.prems(1) by auto
  have ih: "Combine_loop (Suc i) this other ?h2 =
           Some (Inr (?h2(this :=
             \<lparr>subscribers = subscribers (?h2 this) @ drop (Suc i) (subscribers (?h2 other)),
              parameters = parameters (?h2 this) @
                snapshots_from (length (subscribers (?h2 this)))
                  (map params (take (length (subscribers (?h2 other)) - Suc i)
                                 (drop (Suc i) (parameters (?h2 other)))))\<rparr>)))"
  proof (rule Suc.hyps(1) [where h = ?h2 and i = "Suc i", OF k Suc.prems(1)])
    show "length (subscribers (?h2 other)) \<le> length (parameters (?h2 other))"
      using Suc.prems(1,2) by auto
    show "Suc i \<le> length (subscribers (?h2 other))"
      using lt Suc.prems(1) by auto
  qed
  have d: "drop i (subscribers (h other)) = ?x # drop (Suc i) (subscribers (h other))"
    using lt by (simp add: Cons_nth_drop_Suc)
  have t: "take (?n - i) (drop i (parameters (h other)))
             = parameters (h other) ! i # take (?n - Suc i) (drop (Suc i) (parameters (h other)))"
    using lt Suc.prems(2) by (rule take_drop_step)
  show ?case
    unfolding step ih
    by (simp only: o2 this2 d t) (simp add: snapshots_from_Cons)
qed

lemma Combine_loop_self_never_returns:
  assumes r: "Combine_loop i this other h = Some y"
  shows "\<not> (other = this \<and> i < length (subscribers (h this)) \<and> i < length (parameters (h this)))"
proof (rule Combine_loop.raw_induct
    [where P = "\<lambda>i this other h y. \<not> (other = this \<and> i < length (subscribers (h this))
                                        \<and> i < length (parameters (h this)))", OF _ r],
    goal_cases)
  case (1 f i this other h y)
  show ?case
  proof
    assume a: "other = this \<and> i < length (subscribers (h this)) \<and> i < length (parameters (h this))"
    let ?x = "subscribers (h this) ! i"
    let ?h1 = "h(this := push_back ?x (h this))"
    let ?t = "params (parameters (?h1 this) ! i)"
    let ?h2 = "?h1(this := AttachParameters ?t (?h1 this))"
    have "f (Suc i) this this ?h2 = Some y"
      using 1(2) a by (simp add: Let_def push_back_def)
    then have "\<not> (this = this \<and> Suc i < length (subscribers (?h2 this))
                  \<and> Suc i < length (parameters (?h2 this)))"
      by (rule 1(1))
    then show False
      using a by (simp add: push_back_def AttachParameters_def)
  qed
qed

lemma Combine_self_diverges:
  assumes "subscribers (h this) \<noteq> []" and "parameters (h this) \<noteq> []"
  shows "Combine this this h = None"
proof (cases "Combine_loop 0 this this h")
  case None
  then show ?thesis by (simp add: Combine_def)
next
  case (Some y)
  then show ?thesis using Combine_loop_self_never_returns [OF Some] assms by simp
qed


text \<open>
  C5.  For two different delegates \<open>a\<close> and \<open>b\<close>, where \<open>b\<close> has a snapshot for each of its
  subscribers: \<^verbatim>\<open>a.Combine(b)\<close> returns, leaves \<open>b\<close> as it was and appends to \<open>a\<close> the subscribers
  of \<open>b\<close> and, for each, a snapshot with the argument tuple of the snapshot of \<open>b\<close> at the same
  position; \<^verbatim>\<open>a << b\<close> does the same to \<open>a\<close> and leaves \<open>b\<close> empty.  \<^verbatim>\<open>a << a\<close> leaves the store
  unchanged.
\<close>

theorem Combine_and_shift_left:
  assumes "a \<noteq> b" and "length (subscribers (h b)) \<le> length (parameters (h b))"
  shows "Combine a b h =
           Some (Inr (h(a :=
             \<lparr>subscribers = subscribers (h a) @ subscribers (h b),
              parameters = parameters (h a) @
                snapshots_from (length (subscribers (h a)))
                  (map params (take (length (subscribers (h b))) (parameters (h b))))\<rparr>)))
         \<and> (h(a :=
             \<lparr>subscribers = subscribers (h a) @ subscribers (h b),
              parameters = parameters (h a) @
                snapshots_from (length (subscribers (h a)))
                  (map params (take (length (subscribers (h b))) (parameters (h b))))\<rparr>)) b = h b
         \<and> operator_shift_left a b h =
           Some (Inr (h(a :=
             \<lparr>subscribers = subscribers (h a) @ subscribers (h b),
              parameters = parameters (h a) @
                snapshots_from (length (subscribers (h a)))
                  (map params (take (length (subscribers (h b))) (parameters (h b))))\<rparr>,
             b := \<lparr>subscribers = [], parameters = []\<rparr>)))
         \<and> operator_shift_left a a h = Some (Inr h)"
proof -
  let ?A = "\<lparr>subscribers = subscribers (h a) @ subscribers (h b),
              parameters = parameters (h a) @
                snapshots_from (length (subscribers (h a)))
                  (map params (take (length (subscribers (h b))) (parameters (h b))))\<rparr>"
  have c: "Combine a b h = Some (Inr (h(a := ?A)))"
    unfolding Combine_def
    using Combine_loop_distinct [where this = a and other = b and h = h and i = 0] assms by simp
  have frame: "(h(a := ?A)) b = h b" using assms(1) by simp
  have sl: "operator_shift_left a b h =
              Some (Inr (h(a := ?A, b := \<lparr>subscribers = [], parameters = []\<rparr>)))"
    using assms(1) by (simp add: operator_shift_left_def c Clear_def)
  have self: "operator_shift_left a a h = Some (Inr h)"
    by (simp add: operator_shift_left_def)
  show ?thesis using c frame sl self by (intro conjI)
qed

theorem Combine_and_shift_left_witness:
  "Combine 0 (Suc 0)
     ((\<lambda>_. empty_delegate)
        (0 := \<lparr>subscribers = [lambda1, lambda1],
               parameters = [\<lparr>index = 0, params = 10 :: int\<rparr>, \<lparr>index = 1, params = 15\<rparr>]\<rparr>,
         Suc 0 := \<lparr>subscribers = [lambda2, lambda2],
               parameters = [\<lparr>index = 0, params = - 2\<rparr>, \<lparr>index = 1, params = - 6\<rparr>]\<rparr>))
   = Some (Inr ((\<lambda>_. empty_delegate)
        (0 := \<lparr>subscribers = [lambda1, lambda1, lambda2, lambda2],
               parameters = [\<lparr>index = 0, params = 10\<rparr>, \<lparr>index = 1, params = 15\<rparr>,
                             \<lparr>index = 2, params = - 2\<rparr>, \<lparr>index = 3, params = - 6\<rparr>]\<rparr>,
         Suc 0 := \<lparr>subscribers = [lambda2, lambda2],
               parameters = [\<lparr>index = 0, params = - 2\<rparr>, \<lparr>index = 1, params = - 6\<rparr>]\<rparr>)))
   \<and> operator_shift_left 0 (Suc 0)
     ((\<lambda>_. empty_delegate)
        (0 := \<lparr>subscribers = [lambda1, lambda1],
               parameters = [\<lparr>index = 0, params = 10 :: int\<rparr>, \<lparr>index = 1, params = 15\<rparr>]\<rparr>,
         Suc 0 := \<lparr>subscribers = [lambda2, lambda2],
               parameters = [\<lparr>index = 0, params = - 2\<rparr>, \<lparr>index = 1, params = - 6\<rparr>]\<rparr>))
   = Some (Inr ((\<lambda>_. empty_delegate)
        (0 := \<lparr>subscribers = [lambda1, lambda1, lambda2, lambda2],
               parameters = [\<lparr>index = 0, params = 10\<rparr>, \<lparr>index = 1, params = 15\<rparr>,
                             \<lparr>index = 2, params = - 2\<rparr>, \<lparr>index = 3, params = - 6\<rparr>]\<rparr>,
         Suc 0 := \<lparr>subscribers = [], parameters = []\<rparr>)))"
  using Combine_and_shift_left
          [of 0 "Suc 0" "(\<lambda>_. empty_delegate)
        (0 := \<lparr>subscribers = [lambda1, lambda1],
               parameters = [\<lparr>index = 0, params = 10 :: int\<rparr>, \<lparr>index = 1, params = 15\<rparr>]\<rparr>,
         Suc 0 := \<lparr>subscribers = [lambda2, lambda2],
               parameters = [\<lparr>index = 0, params = - 2\<rparr>, \<lparr>index = 1, params = - 6\<rparr>]\<rparr>)"]
  by (simp add: snapshots_from_def fun_upd_twist)

section \<open>Removal on states with one snapshot per subscriber\<close>

lemma word_of_nat_inj64:
  "i < 2 ^ 64 \<Longrightarrow> j < 2 ^ 64 \<Longrightarrow> (word_of_nat i :: size_t) = word_of_nat j \<longleftrightarrow> i = j"
proof
  assume a: "i < 2 ^ 64" "j < 2 ^ 64" "(word_of_nat i :: size_t) = word_of_nat j"
  then have "unat (word_of_nat i :: size_t) = unat (word_of_nat j :: size_t)" by simp
  then show "i = j" using a(1,2) by (simp add: unat_of_nat)
qed simp

lemma index_snapshots_from:
  "p \<in> set (snapshots_from k ts) \<Longrightarrow> \<exists>j. k \<le> j \<and> j < k + length ts \<and> index p = word_of_nat j"
  by (auto simp: snapshots_from_def in_set_enumerate_eq)

lemma filter_snapshots_from_keep:
  assumes "\<And>j. k \<le> j \<Longrightarrow> j < k + length ts \<Longrightarrow> (word_of_nat j :: size_t) \<noteq> w"
  shows "filter (\<lambda>x. index x \<noteq> w) (snapshots_from k ts) = snapshots_from k ts"
    and "filter (\<lambda>x. index x = w) (snapshots_from k ts) = []"
proof -
  have "index x \<noteq> w" if "x \<in> set (snapshots_from k ts)" for x
    using index_snapshots_from [OF that] assms by metis
  then show "filter (\<lambda>x. index x \<noteq> w) (snapshots_from k ts) = snapshots_from k ts"
    and "filter (\<lambda>x. index x = w) (snapshots_from k ts) = []"
    by (simp_all add: filter_id_conv filter_empty_conv)
qed

lemma snapshots_from_snoc:
  "snapshots_from k (ts @ [t]) = snapshots_from k ts @ [\<lparr>index = word_of_nat (k + length ts), params = t\<rparr>]"
  by (simp add: snapshots_from_append snapshots_from_Cons snapshots_from_Nil)

lemma map_rebase_snapshots_from:
  "map (\<lambda>x. x\<lparr>index := index x - 1\<rparr>) (snapshots_from (Suc k) ts) = snapshots_from k ts"
  by (induction ts arbitrary: k) (simp_all add: snapshots_from_Nil snapshots_from_Cons)

lemma DetachParameters_front_canonical:
  assumes "length ts < 2 ^ 64"
  shows "DetachParameters 0 (snapshots_from 0 (t # ts)) = snapshots_from 0 ts"
proof -
  have ne: "(word_of_nat j :: size_t) \<noteq> 0" if "Suc 0 \<le> j" "j < Suc 0 + length ts" for j
    using that assms word_of_nat_inj64 [of j 0] by simp
  have keep: "filter (\<lambda>x. index x \<noteq> 0) (snapshots_from (Suc 0) ts) = snapshots_from (Suc 0) ts"
    and drop: "filter (\<lambda>x. index x = 0) (snapshots_from (Suc 0) ts) = []"
    using filter_snapshots_from_keep [of "Suc 0" ts 0] ne by blast+
  show ?thesis
    by (simp add: DetachParameters_def snapshots_from_Cons keep drop map_rebase_snapshots_from)
qed

lemma DetachParameters_back_canonical:
  assumes "length ts < 2 ^ 64"
  shows "DetachParameters (vsize (snapshots_from 0 (ts @ [t])) - 1) (snapshots_from 0 (ts @ [t]))
           = snapshots_from 0 ts"
proof -
  let ?w = "word_of_nat (length ts) :: size_t"
  have w: "vsize (snapshots_from 0 (ts @ [t])) - 1 = ?w"
    by (simp add: vsize_def length_snapshots_from)
  have ne: "(word_of_nat j :: size_t) \<noteq> ?w" if "0 \<le> j" "j < 0 + length ts" for j
    using that assms word_of_nat_inj64 [of j "length ts"] by simp
  have keep: "filter (\<lambda>x. index x \<noteq> ?w) (snapshots_from 0 ts) = snapshots_from 0 ts"
    and drop: "filter (\<lambda>x. index x = ?w) (snapshots_from 0 ts) = []"
    using filter_snapshots_from_keep [of 0 ts ?w] ne by blast+
  show ?thesis
  proof (cases "ts = []")
    case True
    then show ?thesis
      by (simp add: DetachParameters_def snapshots_from_Cons snapshots_from_Nil vsize_def)
  next
    case False
    then have "0 < length ts" by simp
    then have "?w \<noteq> 0" using assms word_of_nat_inj64 [of "length ts" 0] by simp
    then have pos: "0 < ?w" by (simp add: word_greater_zero_iff)
    show ?thesis
      unfolding w using pos
      by (simp add: DetachParameters_def snapshots_from_snoc keep drop)
  qed
qed

lemma Detach_front_loop_canonical:
  "k \<le> length ts \<Longrightarrow> length ts \<le> 2 ^ 64 \<Longrightarrow>
     Detach_front_loop k (snapshots_from 0 ts) = snapshots_from 0 (drop k ts)"
proof (induction k arbitrary: ts)
  case 0
  then show ?case by simp
next
  case (Suc k)
  then obtain t ts' where ts: "ts = t # ts'" by (cases ts) auto
  have "DetachParameters 0 (snapshots_from 0 (t # ts')) = snapshots_from 0 ts'"
    using Suc.prems ts by (intro DetachParameters_front_canonical) simp
  then show ?case using Suc ts by simp
qed

lemma Detach_back_loop_canonical:
  "k \<le> length ts \<Longrightarrow> length ts \<le> 2 ^ 64 \<Longrightarrow>
     Detach_back_loop k (snapshots_from 0 ts) = snapshots_from 0 (take (length ts - k) ts)"
proof (induction k arbitrary: ts)
  case 0
  then show ?case by simp
next
  case (Suc k)
  then have "ts \<noteq> []" by auto
  then obtain ts' t where ts: "ts = ts' @ [t]" by (metis rev_exhaust)
  have "DetachParameters (vsize (snapshots_from 0 (ts' @ [t])) - 1) (snapshots_from 0 (ts' @ [t]))
          = snapshots_from 0 ts'"
    using Suc.prems ts by (intro DetachParameters_back_canonical) simp
  then show ?case using Suc ts by simp
qed

lemma canonicalI:
  "length ts = length subs \<Longrightarrow> canonical \<lparr>subscribers = subs, parameters = snapshots_from 0 ts\<rparr>"
  by (simp add: canonical_def length_snapshots_from snapshots_from_def comp_def case_prod_unfold
        map_snd_enumerate)

lemma canonical_I1:
  assumes "canonical d" and "length (subscribers d) \<le> 2 ^ 64"
  shows "I1 d"
proof -
  have "unat (index p) < length (subscribers d)" if "p \<in> set (parameters d)" for p
  proof -
    have "p \<in> set (snapshots_from 0 (map params (parameters d)))"
      using that assms(1) by (simp add: canonical_def)
    then obtain j where j: "j < length (parameters d)" "index p = word_of_nat j"
      using index_snapshots_from [of p 0 "map params (parameters d)"] by auto
    have "j < 2 ^ 64" using j(1) assms by (simp add: canonical_def)
    then have "unat (index p) = j" using j(2) by (simp add: unat_of_nat)
    then show ?thesis using j(1) assms(1) by (simp add: canonical_def)
  qed
  then show ?thesis by (simp add: I1_def list_all_iff)
qed

lemma Remove_back_canonical:
  assumes "canonical d" and "subscribers d \<noteq> []" and "0 \<le> sint count"
    and "length (subscribers d) < 2 ^ 64"
  shows "Remove count True d =
           Inr \<lparr>subscribers =
                  take (length (subscribers d) - min (nat (sint count)) (length (subscribers d) - 1))
                    (subscribers d),
                parameters = snapshots_from 0
                  (take (length (subscribers d) - min (nat (sint count)) (length (subscribers d) - 1))
                    (map params (parameters d)))\<rparr>"
proof -
  let ?n = "length (subscribers d)"
  let ?m = "min (nat (sint count)) (?n - 1)"
  have b: "unat (int_to_size_t (adjustedCount count (subscribers d))) = ?m"
    using assms(3,2,4) by (rule adjustedCount_nonneg)
  have le: "?m \<le> ?n" by simp
  have p: "pop_back_loop ?m (subscribers d) = Inr (take (?n - ?m) (subscribers d))"
    using le by (rule pop_back_loop_take)
  have lenp: "length (parameters d) = ?n" using assms(1) by (simp add: canonical_def)
  have len: "length (map params (parameters d)) = ?n" using lenp by simp
  have "Detach_back_loop ?m (snapshots_from 0 (map params (parameters d)))
          = snapshots_from 0 (take (length (map params (parameters d)) - ?m) (map params (parameters d)))"
    using le assms(4) lenp by (intro Detach_back_loop_canonical) simp_all
  then have q: "Detach_back_loop ?m (parameters d)
          = snapshots_from 0 (take (?n - ?m) (map params (parameters d)))"
    using assms(1) by (simp only: len) (simp add: canonical_def)
  show ?thesis
    by (simp only: Remove_def b Let_def p q) simp
qed

lemma Remove_front_canonical:
  assumes "canonical d" and "0 \<le> sint count" and "nat (sint count) < length (subscribers d)"
    and "length (subscribers d) < 2 ^ 64"
  shows "Remove count False d =
           Inr \<lparr>subscribers = drop (nat (sint count)) (subscribers d),
                parameters = snapshots_from 0 (drop (nat (sint count)) (map params (parameters d)))\<rparr>"
proof -
  let ?n = "length (subscribers d)"
  let ?c = "nat (sint count)"
  have ne: "subscribers d \<noteq> []" using assms(3) by auto
  have "unat (int_to_size_t (adjustedCount count (subscribers d))) = min ?c (?n - 1)"
    using assms(2) ne assms(4) by (rule adjustedCount_nonneg)
  then have b: "unat (int_to_size_t (adjustedCount count (subscribers d))) = ?c"
    using assms(3) by simp
  have lenp: "length (parameters d) = ?n" using assms(1) by (simp add: canonical_def)
  have len: "length (map params (parameters d)) = ?n" using lenp by simp
  have "Detach_front_loop ?c (snapshots_from 0 (map params (parameters d)))
          = snapshots_from 0 (drop ?c (map params (parameters d)))"
    using assms(3,4) lenp by (intro Detach_front_loop_canonical) simp_all
  then have q: "Detach_front_loop ?c (parameters d)
          = snapshots_from 0 (drop ?c (map params (parameters d)))"
    using assms(1) by (simp add: canonical_def)
  show ?thesis
    using assms(2,3) by (simp only: Remove_def b Let_def q) simp
qed

lemma README_removing:
  "Remove 1 True (Subscribe_packs lambda2 [- 5, - 7] (Subscribe_packs lambda1 [4, 6, 8 :: int] empty_delegate))
     = Inr \<lparr>subscribers = [lambda1, lambda1, lambda1, lambda2],
            parameters = [\<lparr>index = 0, params = 4\<rparr>, \<lparr>index = 1, params = 6\<rparr>,
                          \<lparr>index = 2, params = 8\<rparr>, \<lparr>index = 3, params = - 5\<rparr>]\<rparr>"
  "Remove 2 False \<lparr>subscribers = [lambda1, lambda1, lambda1, lambda2],
            parameters = [\<lparr>index = 0, params = 4 :: int\<rparr>, \<lparr>index = 1, params = 6\<rparr>,
                          \<lparr>index = 2, params = 8\<rparr>, \<lparr>index = 3, params = - 5\<rparr>]\<rparr>
     = Inr \<lparr>subscribers = [lambda1, lambda2],
            parameters = [\<lparr>index = 0, params = 8\<rparr>, \<lparr>index = 1, params = - 5\<rparr>]\<rparr>"
  "Invoke record_call \<lparr>subscribers = [lambda1, lambda2],
            parameters = [\<lparr>index = 0, params = 8 :: int\<rparr>, \<lparr>index = 1, params = - 5\<rparr>]\<rparr> []
     = Inr [(lambda1, 8), (lambda2, - 5)]"
  by code_simp+

section \<open>The invariant on the guarded operations\<close>

lemma canonical_append:
  assumes "canonical d" and "length ts = length fs"
  shows "canonical \<lparr>subscribers = subscribers d @ fs,
                    parameters = parameters d @ snapshots_from (length (subscribers d)) ts\<rparr>"
proof -
  let ?ts0 = "map params (parameters d)"
  have l: "length ?ts0 = length (subscribers d)" using assms(1) by (simp add: canonical_def)
  have "parameters d @ snapshots_from (length (subscribers d)) ts
          = snapshots_from 0 ?ts0 @ snapshots_from (0 + length ?ts0) ts"
    using assms(1) l by (simp add: canonical_def)
  also have "\<dots> = snapshots_from 0 (?ts0 @ ts)"
    by (simp only: snapshots_from_append)
  finally have e: "parameters d @ snapshots_from (length (subscribers d)) ts
          = snapshots_from 0 (?ts0 @ ts)" .
  show ?thesis
    unfolding e using l assms(2) by (intro canonicalI) simp
qed

lemma canonical_cong:
  "length (subscribers d) = length (subscribers e) \<Longrightarrow> parameters d = parameters e \<Longrightarrow>
     canonical d = canonical e"
  by (simp add: canonical_def)

lemma canonical_empty: "canonical empty_delegate"
  by (simp add: canonical_def empty_delegate_def snapshots_from_Nil)

lemma canonical_Clear: "canonical (Clear d)"
  by (simp add: canonical_def Clear_def snapshots_from_Nil)

lemma canonical_do_subscribe: "canonical d \<Longrightarrow> canonical (do_subscribe c d)"
  unfolding do_subscribe_appends by (rule canonical_append) simp_all

lemma canonical_nonempty: "canonical d \<Longrightarrow> subscribers d \<noteq> [] \<Longrightarrow> parameters d \<noteq> []"
  by (auto simp: canonical_def)

lemma canonical_pre_increment:
  assumes "canonical d" shows "canonical (operator_pre_increment d)"
proof (cases "subscribers d = []")
  case True
  then show ?thesis using assms by (simp add: operator_pre_increment_def)
next
  case False
  then have pe: "parameters d \<noteq> []" using assms by (rule canonical_nonempty [rotated])
  have c: "canonical \<lparr>subscribers = subscribers d @ [hd (subscribers d)],
                      parameters = parameters d @
                        snapshots_from (length (subscribers d)) [params (hd (parameters d))]\<rparr>"
    using assms by (rule canonical_append) simp
  have "operator_pre_increment d =
          \<lparr>subscribers = hd (subscribers d) # subscribers d,
           parameters = parameters d @
             snapshots_from (length (subscribers d)) [params (hd (parameters d))]\<rparr>"
    using False pe
    by (simp add: operator_pre_increment_def AttachParameters_def vsize_def snapshots_from_def)
  then have "canonical (operator_pre_increment d) =
      canonical \<lparr>subscribers = subscribers d @ [hd (subscribers d)],
                 parameters = parameters d @
                   snapshots_from (length (subscribers d)) [params (hd (parameters d))]\<rparr>"
    by (intro canonical_cong) simp_all
  then show ?thesis using c by simp
qed

lemma canonical_post_increment:
  assumes "canonical d" shows "canonical (operator_post_increment d)"
proof (cases "subscribers d = []")
  case True
  then show ?thesis using assms by (simp add: operator_post_increment_def)
next
  case False
  then have pe: "parameters d \<noteq> []" using assms by (rule canonical_nonempty [rotated])
  have c: "canonical \<lparr>subscribers = subscribers d @ [last (subscribers d)],
                      parameters = parameters d @
                        snapshots_from (length (subscribers d)) [params (last (parameters d))]\<rparr>"
    using assms by (rule canonical_append) simp
  have "operator_post_increment d =
          \<lparr>subscribers = subscribers d @ [last (subscribers d)],
           parameters = parameters d @
             snapshots_from (length (subscribers d)) [params (last (parameters d))]\<rparr>"
    using False pe
    by (simp add: operator_post_increment_def AttachParameters_def vsize_def snapshots_from_def)
  then show ?thesis using c by simp
qed

lemma butlast_snapshots_from: "butlast (snapshots_from k ts) = snapshots_from k (butlast ts)"
  by (induction ts rule: rev_induct) (simp_all add: snapshots_from_Nil snapshots_from_snoc)

lemma last_snapshots_from:
  "ts \<noteq> [] \<Longrightarrow> index (last (snapshots_from k ts)) = word_of_nat (k + length ts - 1)"
  by (induction ts rule: rev_induct) (simp_all add: snapshots_from_snoc)

lemma canonical_post_decrement:
  assumes "canonical d" and "length (subscribers d) \<le> 2 ^ 31"
  shows "\<exists>d'. operator_post_decrement d = Inr d' \<and> canonical d'
              \<and> subscribers d' = butlast (subscribers d)"
proof (cases "subscribers d = []")
  case True
  then show ?thesis using assms by (simp add: operator_post_decrement_def)
next
  case False
  let ?n = "length (subscribers d)"
  let ?ts = "map params (parameters d)"
  have pe: "parameters d \<noteq> []" using assms(1) False by (rule canonical_nonempty)
  have l: "length (parameters d) = ?n" using assms(1) by (simp add: canonical_def)
  have ps: "parameters d = snapshots_from 0 ?ts" using assms(1) by (simp add: canonical_def)
  have "index (last (snapshots_from 0 ?ts)) = word_of_nat (0 + length ?ts - 1)"
    using pe by (intro last_snapshots_from) simp
  then have li: "index (last (parameters d)) = word_of_nat (?n - 1)"
    using ps l by simp
  have u: "unat (index (last (parameters d))) = ?n - 1"
    using assms(2) by (simp add: li unat_of_nat)
  then have "unat (index (last (parameters d))) < 2 ^ 31" using assms(2) False by simp
  then have i: "sint (size_t_to_int (index (last (parameters d)))) = int (?n - 1)"
    using u sint_size_t_to_int [of "index (last (parameters d))"] by simp
  have er: "erase_at (?n - 1) (subscribers d) = butlast (subscribers d)"
    by (simp add: erase_at_def butlast_conv_take)
  have r: "operator_post_decrement d =
             Inr \<lparr>subscribers = butlast (subscribers d), parameters = butlast (parameters d)\<rparr>"
    using False pe er by (simp add: operator_post_decrement_def i)
  have "butlast (parameters d) = snapshots_from 0 (butlast ?ts)"
    using ps butlast_snapshots_from [of 0 ?ts] by simp
  moreover have "canonical \<lparr>subscribers = butlast (subscribers d),
                            parameters = snapshots_from 0 (butlast ?ts)\<rparr>"
    using l by (intro canonicalI) simp
  ultimately show ?thesis using r by simp
qed

lemma canonical_Combine:
  assumes "canonical (h this)" and "canonical (h other)" and "this \<noteq> other"
    and "Combine this other h = Some (Inr h')"
  shows "canonical (h' this)"
proof -
  let ?ts = "map params (take (length (subscribers (h other))) (parameters (h other)))"
  have l: "length (parameters (h other)) = length (subscribers (h other))"
    using assms(2) by (simp add: canonical_def)
  have "Combine this other h =
          Some (Inr (h(this :=
             \<lparr>subscribers = subscribers (h this) @ subscribers (h other),
              parameters = parameters (h this) @
                snapshots_from (length (subscribers (h this))) ?ts\<rparr>)))"
    unfolding Combine_def
    using Combine_loop_distinct [where this = this and other = other and h = h and i = 0]
      assms(3) l by simp
  then have "h' this = \<lparr>subscribers = subscribers (h this) @ subscribers (h other),
              parameters = parameters (h this) @
                snapshots_from (length (subscribers (h this))) ?ts\<rparr>"
    using assms(4) by auto
  moreover have "canonical \<lparr>subscribers = subscribers (h this) @ subscribers (h other),
              parameters = parameters (h this) @
                snapshots_from (length (subscribers (h this))) ?ts\<rparr>"
    using assms(1) by (rule canonical_append) (simp add: l)
  ultimately show ?thesis by simp
qed

lemma canonical_Remove_back:
  assumes "canonical d" and "subscribers d \<noteq> []" and "length (subscribers d) \<le> 2 ^ 31"
    and "Remove count True d = Inr d'"
  shows "canonical d'"
proof -
  let ?n = "length (subscribers d)"
  let ?ts = "map params (parameters d)"
  have lenp: "length (parameters d) = ?n" using assms(1) by (simp add: canonical_def)
  have ps: "parameters d = snapshots_from 0 ?ts" using assms(1) by (simp add: canonical_def)
  have l64: "?n < 2 ^ 64" using assms(3) by simp
  obtain m where b: "unat (int_to_size_t (adjustedCount count (subscribers d))) = m" and le: "m \<le> ?n"
  proof (cases "0 \<le> sint count")
    case True
    have "unat (int_to_size_t (adjustedCount count (subscribers d))) = min (nat (sint count)) (?n - 1)"
      using True assms(2) l64 by (rule adjustedCount_nonneg)
    then show ?thesis using that [of "min (nat (sint count)) (?n - 1)"] by simp
  next
    case False
    then have "sint count < 0" by simp
    then have "unat (int_to_size_t (adjustedCount count (subscribers d))) = ?n - 1"
      using assms(2,3) by (rule adjustedCount_negative)
    then show ?thesis using that [of "?n - 1"] by simp
  qed
  have p: "pop_back_loop m (subscribers d) = Inr (take (?n - m) (subscribers d))"
    using le by (rule pop_back_loop_take)
  have "Detach_back_loop m (snapshots_from 0 ?ts) = snapshots_from 0 (take (length ?ts - m) ?ts)"
    using le l64 lenp by (intro Detach_back_loop_canonical) simp_all
  then have q: "Detach_back_loop m (parameters d) = snapshots_from 0 (take (?n - m) ?ts)"
    using ps lenp by simp
  have "Remove count True d =
          Inr \<lparr>subscribers = take (?n - m) (subscribers d),
               parameters = snapshots_from 0 (take (?n - m) ?ts)\<rparr>"
    by (simp only: Remove_def b Let_def p q) simp
  then have "d' = \<lparr>subscribers = take (?n - m) (subscribers d),
               parameters = snapshots_from 0 (take (?n - m) ?ts)\<rparr>"
    using assms(4) by simp
  moreover have "canonical \<lparr>subscribers = take (?n - m) (subscribers d),
               parameters = snapshots_from 0 (take (?n - m) ?ts)\<rparr>"
    using lenp by (intro canonicalI) simp
  ultimately show ?thesis by simp
qed

lemma canonical_Remove_front:
  assumes "canonical d" and "0 \<le> sint count" and "nat (sint count) < length (subscribers d)"
    and "length (subscribers d) \<le> 2 ^ 31" and "Remove count False d = Inr d'"
  shows "canonical d'"
proof -
  have l64: "length (subscribers d) < 2 ^ 64" using assms(4) by simp
  have lenp: "length (parameters d) = length (subscribers d)"
    using assms(1) by (simp add: canonical_def)
  have "d' = \<lparr>subscribers = drop (nat (sint count)) (subscribers d),
              parameters = snapshots_from 0 (drop (nat (sint count)) (map params (parameters d)))\<rparr>"
    using Remove_front_canonical [OF assms(1,2,3) l64] assms(5) by simp
  moreover have "canonical \<lparr>subscribers = drop (nat (sint count)) (subscribers d),
              parameters = snapshots_from 0 (drop (nat (sint count)) (map params (parameters d)))\<rparr>"
    using lenp by (intro canonicalI) simp
  ultimately show ?thesis by simp
qed

text \<open>
  Every state reached with \<^verbatim>\<open>Remove\<close> kept inside its range has one snapshot per subscriber,
  indexed by position, and so satisfies I1.
\<close>

lemma guarded_reachable_canonical: "guarded_reachable d \<Longrightarrow> canonical d"
proof (induction rule: guarded_reachable.induct)
  case reach_empty
  then show ?case by (rule canonical_empty)
next
  case (reach_subscribe d c)
  then show ?case by (simp add: canonical_do_subscribe)
next
  case (reach_combine h this other h')
  then show ?case using canonical_Combine by blast
next
  case (reach_remove_back d count d')
  then show ?case using canonical_Remove_back by blast
next
  case (reach_remove_front d count d')
  then show ?case using canonical_Remove_front by blast
next
  case (reach_pre_increment d)
  then show ?case by (simp add: canonical_pre_increment)
next
  case (reach_post_increment d)
  then show ?case by (simp add: canonical_post_increment)
next
  case (reach_pre_decrement d d')
  have "operator_post_decrement d = Inr d'"
    using reach_pre_decrement(3)
    by (simp add: operator_pre_decrement_def operator_post_decrement_def)
  then show ?case
    using canonical_post_decrement [OF reach_pre_decrement.IH reach_pre_decrement(2)] by auto
next
  case (reach_post_decrement d d')
  then show ?case
    using canonical_post_decrement [OF reach_post_decrement.IH reach_post_decrement(2)] by auto
next
  case (reach_clear d)
  then show ?case by (simp add: canonical_Clear)
qed

lemma guarded_reachable_I1:
  "guarded_reachable d \<Longrightarrow> length (subscribers d) \<le> 2 ^ 64 \<Longrightarrow> I1 d"
  using guarded_reachable_canonical canonical_I1 by blast

end
